theory Spec2Isabelle
  imports Main
begin

section \<open>The node: \<open>tree_node.py\<close>\<close>

text \<open>
  A \<open>TreeNode\<close> object has the five attributes its constructor assigns, in the
  constructor's order: \<open>key\<close>, \<open>value\<close>, \<open>right\<close>, \<open>left\<close>, \<open>parent\<close>. The three
  links are optional (\<open>None\<close> in Python is \<open>None\<close> here). The attribute \<open>value\<close> is
  called \<open>node_value\<close>. Keys are Python integers, hence unbounded: \<open>int\<close>.

  Trees are modelled as values. Every tree in this development is built by the tree's own
  methods, which never share a node between two places, so a value stands for the object
  graph under a node; an in-place assignment to an attribute of a node becomes the
  rebuilding of the node with the new attribute.
\<close>

datatype 'v TreeNode =
  TreeNode (key: int) (node_value: 'v) (right: "'v TreeNode option")
    (left: "'v TreeNode option") (parent: "'v TreeNode option")

text \<open>\<open>TreeNode.depth\<close>: zero without a parent, else the parent's depth plus one.\<close>

fun depth :: "'v TreeNode \<Rightarrow> int" where
  "depth (TreeNode k v r l None) = 0"
| "depth (TreeNode k v r l (Some p)) = depth p + 1"

definition is_external :: "'v TreeNode \<Rightarrow> bool" where
  "is_external n = (left n = None \<and> right n = None)"

definition is_internal :: "'v TreeNode \<Rightarrow> bool" where
  "is_internal n = (\<not> is_external n)"

section \<open>The tree: \<open>bst.py\<close>\<close>

text \<open>
  The attributes \<open>_root\<close>, \<open>_size\<close> and \<open>_num_of_comparisons\<close> of a
  \<open>BinarySearchTree\<close>; a leading underscore of the source is written \<open>priv_\<close>.
  \<open>_size\<close> is a Python integer that \<open>remove\<close> decrements, so it is an \<open>int\<close>.
\<close>

record 'v BinarySearchTree =
  priv_root :: "'v TreeNode option"
  priv_size :: int
  priv_num_of_comparisons :: int

text \<open>
  The two exceptions the methods raise, and the objects a caller may pass as a key:
  an integer, or something \<open>isinstance(key, int)\<close> rejects (a string, \<open>None\<close>).
  A Python \<open>bool\<close> is an \<open>int\<close> and compares as 0 or 1, so it is a \<open>PyInt\<close>.
\<close>

datatype py_error = ValueError | KeyError

datatype py_object = PyInt int | PyStr string | PyNone

fun isinstance_int :: "py_object \<Rightarrow> bool" where
  "isinstance_int (PyInt k) = True"
| "isinstance_int (PyStr s) = False"
| "isinstance_int PyNone = False"

text \<open>\<open>__init__\<close>: the size is 1 for any given root, whatever hangs below it.\<close>

definition BinarySearchTree_init :: "'v TreeNode option \<Rightarrow> 'v BinarySearchTree" where
  "BinarySearchTree_init root =
     \<lparr>priv_root = root, priv_size = (if root = None then 0 else 1),
      priv_num_of_comparisons = 0\<rparr>"

subsection \<open>Traversals\<close>

fun priv_inorder :: "'v TreeNode option \<Rightarrow> 'v TreeNode list" where
  "priv_inorder None = []"
| "priv_inorder (Some (TreeNode k v r l p)) =
     priv_inorder l @ [TreeNode k v r l p] @ priv_inorder r"

fun priv_preorder :: "'v TreeNode option \<Rightarrow> 'v TreeNode list" where
  "priv_preorder None = []"
| "priv_preorder (Some (TreeNode k v r l p)) =
     [TreeNode k v r l p] @ priv_preorder l @ priv_preorder r"

fun priv_postorder :: "'v TreeNode option \<Rightarrow> 'v TreeNode list" where
  "priv_postorder None = []"
| "priv_postorder (Some (TreeNode k v r l p)) =
     priv_postorder l @ priv_postorder r @ [TreeNode k v r l p]"

text \<open>
  The public generators take an optional start node; \<open>node or self._root\<close> picks the
  root when none is given (a node object is always truthy: the class defines neither
  \<open>__bool__\<close> nor \<open>__len__\<close>). A generator is modelled by the list of what it yields.
\<close>

definition py_or :: "'a option \<Rightarrow> 'a option \<Rightarrow> 'a option" where
  "py_or a b = (case a of None \<Rightarrow> b | Some x \<Rightarrow> Some x)"

definition inorder :: "'v BinarySearchTree \<Rightarrow> 'v TreeNode option \<Rightarrow> 'v TreeNode list" where
  "inorder self node =
     (case py_or node (priv_root self) of None \<Rightarrow> [] | Some n \<Rightarrow> priv_inorder (Some n))"

definition preorder :: "'v BinarySearchTree \<Rightarrow> 'v TreeNode option \<Rightarrow> 'v TreeNode list" where
  "preorder self node =
     (case py_or node (priv_root self) of None \<Rightarrow> [] | Some n \<Rightarrow> priv_preorder (Some n))"

definition postorder :: "'v BinarySearchTree \<Rightarrow> 'v TreeNode option \<Rightarrow> 'v TreeNode list" where
  "postorder self node =
     (case py_or node (priv_root self) of None \<Rightarrow> [] | Some n \<Rightarrow> priv_postorder (Some n))"

text \<open>\<open>__iter__\<close>.\<close>

definition iter :: "'v BinarySearchTree \<Rightarrow> 'v TreeNode list" where
  "iter self = priv_preorder (priv_root self)"

subsection \<open>Lookup\<close>

fun priv_find_recursive :: "'v TreeNode option \<Rightarrow> int \<Rightarrow> 'v TreeNode option" where
  "priv_find_recursive None k = None"
| "priv_find_recursive (Some (TreeNode nk nv r l p)) k =
     (if k = nk then Some (TreeNode nk nv r l p)
      else if k < nk then priv_find_recursive l k
      else priv_find_recursive r k)"

text \<open>
  A public method returns what it raised or returned, and the tree it leaves behind.
  \<open>find\<close> and \<open>__getitem__\<close> contain no assignment to the tree or to a node, so the
  tree they leave is the one they got.
\<close>

definition find_bst ::
  "'v BinarySearchTree \<Rightarrow> py_object \<Rightarrow> (py_error + 'v TreeNode) \<times> 'v BinarySearchTree" where
  "find_bst self k =
     (case k of
        PyInt i \<Rightarrow>
          (case priv_find_recursive (priv_root self) i of
             None \<Rightarrow> (Inl KeyError, self)
           | Some node \<Rightarrow> (Inr node, self))
      | _ \<Rightarrow> (Inl ValueError, self))"

definition getitem ::
  "'v BinarySearchTree \<Rightarrow> py_object \<Rightarrow> (py_error + 'v) \<times> 'v BinarySearchTree" where
  "getitem self k =
     (case find_bst self k of
        (Inl e, self') \<Rightarrow> (Inl e, self')
      | (Inr node, self') \<Rightarrow> (Inr (node_value node), self'))"

definition size_bst :: "'v BinarySearchTree \<Rightarrow> int" where
  "size_bst self = priv_size self"

subsection \<open>Insertion\<close>

text \<open>
  \<open>_insert_recursive(node, key, value)\<close> works on a node that is not \<open>None\<close>, assigns to
  \<open>node.left\<close> or \<open>node.right\<close> and to \<open>self._size\<close>. The model takes the node and the
  size and returns the exception raised, if any, with the node and the size as the call
  leaves them, also when it raises.
\<close>

fun priv_insert_recursive ::
  "'v TreeNode \<Rightarrow> int \<Rightarrow> int \<Rightarrow> 'v \<Rightarrow> py_error option \<times> 'v TreeNode \<times> int" where
  "priv_insert_recursive (TreeNode nk nv r l p) sz k val =
     (if k = nk then (Some KeyError, TreeNode nk nv r l p, sz)
      else if k < nk then
        (case l of
           None \<Rightarrow> (None, TreeNode nk nv r (Some (TreeNode k val None None None)) p, sz + 1)
         | Some ln \<Rightarrow>
             (case priv_insert_recursive ln sz k val of
                (e, ln', sz') \<Rightarrow> (e, TreeNode nk nv r (Some ln') p, sz')))
      else
        (case r of
           None \<Rightarrow> (None, TreeNode nk nv (Some (TreeNode k val None None None)) l p, sz + 1)
         | Some rn \<Rightarrow>
             (case priv_insert_recursive rn sz k val of
                (e, rn', sz') \<Rightarrow> (e, TreeNode nk nv (Some rn') l p, sz'))))"

definition insert_bst ::
  "'v BinarySearchTree \<Rightarrow> py_object \<Rightarrow> 'v \<Rightarrow> py_error option \<times> 'v BinarySearchTree" where
  "insert_bst self k val =
     (case k of
        PyInt i \<Rightarrow>
          (case priv_root self of
             None \<Rightarrow>
               (None, self\<lparr>priv_root := Some (TreeNode i val None None None),
                           priv_size := priv_size self + 1\<rparr>)
           | Some rootnode \<Rightarrow>
               (case priv_insert_recursive rootnode (priv_size self) i val of
                  (e, rootnode', sz') \<Rightarrow>
                    ((case e of None \<Rightarrow> None | Some err \<Rightarrow> Some KeyError),
                     self\<lparr>priv_root := Some rootnode', priv_size := sz'\<rparr>)))
      | _ \<Rightarrow> (Some ValueError, self))"

subsection \<open>Removal\<close>

text \<open>
  The loop \<open>while successor.left: successor = successor.left\<close> of \<open>remove\<close>, from a node
  that is not \<open>None\<close>; \<open>return_min_key\<close> runs the same loop from the root.
\<close>

fun leftmost :: "'v TreeNode \<Rightarrow> 'v TreeNode" where
  "leftmost (TreeNode k v r l p) =
     (case l of None \<Rightarrow> TreeNode k v r l p | Some ln \<Rightarrow> leftmost ln)"

text \<open>
  \<open>remove_recursive\<close> is a closure over the \<open>key\<close> that \<open>remove\<close> was called with: the
  key is the same in every recursive call, also in the one on \<open>node.right\<close> after the
  successor's key and value have been copied. It returns the node to put in the place
  of its argument and whether a node was found.
\<close>

fun remove_recursive :: "int \<Rightarrow> 'v TreeNode option \<Rightarrow> 'v TreeNode option \<times> bool" where
  "remove_recursive k None = (None, False)"
| "remove_recursive k (Some (TreeNode nk nv r l p)) =
     (if k < nk then
        (case remove_recursive k l of
           (l', removed) \<Rightarrow> (Some (TreeNode nk nv r l' p), removed))
      else if k > nk then
        (case remove_recursive k r of
           (r', removed) \<Rightarrow> (Some (TreeNode nk nv r' l p), removed))
      else
        (case l of
           Some ln \<Rightarrow>
             (case r of
                Some rn \<Rightarrow>
                  (let successor = leftmost rn in
                   case remove_recursive k r of
                     (r', u) \<Rightarrow>
                       (Some (TreeNode (key successor) (node_value successor) r' l p), True))
              | None \<Rightarrow> (l, True))
         | None \<Rightarrow> (r, True)))"

definition remove ::
  "'v BinarySearchTree \<Rightarrow> py_object \<Rightarrow> py_error option \<times> 'v BinarySearchTree" where
  "remove self k =
     (case k of
        PyInt i \<Rightarrow>
          (case remove_recursive i (priv_root self) of
             (root', deleted) \<Rightarrow>
               (if \<not> deleted then (Some KeyError, self\<lparr>priv_root := root'\<rparr>)
                else (None, self\<lparr>priv_root := root', priv_size := priv_size self - 1\<rparr>)))
      | _ \<Rightarrow> (Some ValueError, self))"

subsection \<open>Validity check and minimum\<close>

text \<open>
  The bounds of \<open>is_valid_recursive\<close> are annotated \<open>float\<close>: a key, or an infinity.
  The property \<open>is_valid\<close> defines the inner function and ends; it neither calls it nor
  has a \<open>return\<close> statement, so what it returns is Python's \<open>None\<close>.
\<close>

datatype bound = NegInf | Num int | PosInf

fun bound_less :: "bound \<Rightarrow> bound \<Rightarrow> bool" where
  "bound_less NegInf NegInf = False"
| "bound_less NegInf b = True"
| "bound_less (Num a) (Num b) = (a < b)"
| "bound_less (Num a) PosInf = True"
| "bound_less (Num a) NegInf = False"
| "bound_less PosInf b = False"

fun is_valid_recursive :: "'v TreeNode option \<Rightarrow> bound \<Rightarrow> bound \<Rightarrow> bool" where
  "is_valid_recursive None lower upper = True"
| "is_valid_recursive (Some (TreeNode k v r l p)) lower upper =
     (if \<not> (bound_less lower (Num k) \<and> bound_less (Num k) upper) then False
      else is_valid_recursive l lower (Num k) \<and> is_valid_recursive r (Num k) upper)"

definition is_valid :: "'v BinarySearchTree \<Rightarrow> bool option" where
  "is_valid self = None"

definition return_min_key :: "'v BinarySearchTree \<Rightarrow> 'v TreeNode option" where
  "return_min_key self =
     (case priv_root self of None \<Rightarrow> None | Some node \<Rightarrow> Some (leftmost node))"

section \<open>Callers and properties\<close>

text \<open>
  A caller that inserts a list of key-value pairs one after the other,
  \<open>for k, v in kvs: tree.insert(k, v)\<close>: the first exception ends the loop.
\<close>

fun insert_all ::
  "'v BinarySearchTree \<Rightarrow> (py_object \<times> 'v) list \<Rightarrow> py_error option \<times> 'v BinarySearchTree" where
  "insert_all self [] = (None, self)"
| "insert_all self ((k, val) # kvs) =
     (case insert_bst self k val of
        (None, self') \<Rightarrow> insert_all self' kvs
      | (Some e, self') \<Rightarrow> (Some e, self'))"

text \<open>The same for removals, \<open>for k in ks: tree.remove(k)\<close>.\<close>

fun remove_all ::
  "'v BinarySearchTree \<Rightarrow> py_object list \<Rightarrow> py_error option \<times> 'v BinarySearchTree" where
  "remove_all self [] = (None, self)"
| "remove_all self (k # ks) =
     (case remove self k of
        (None, self') \<Rightarrow> remove_all self' ks
      | (Some e, self') \<Rightarrow> (Some e, self'))"

text \<open>
  The trees a caller can build from \<open>BinarySearchTree()\<close> with \<open>insert\<close> and \<open>remove\<close>:
  the tree each call leaves, whether it returned or raised.
\<close>

inductive reachable :: "'v BinarySearchTree \<Rightarrow> bool" where
  reachable_init: "reachable (BinarySearchTree_init None)"
| reachable_insert: "reachable t \<Longrightarrow> reachable (snd (insert_bst t k val))"
| reachable_remove: "reachable t \<Longrightarrow> reachable (snd (remove t k))"

text \<open>The keys of the nodes under a node, in inorder.\<close>

definition keys_of :: "'v TreeNode option \<Rightarrow> int list" where
  "keys_of n = map key (priv_inorder n)"

text \<open>The node \<open>i\<close> left links below a node, if the chain is that long.\<close>

fun follow_left :: "nat \<Rightarrow> 'v TreeNode \<Rightarrow> 'v TreeNode option" where
  "follow_left 0 n = Some n"
| "follow_left (Suc i) n = (case left n of None \<Rightarrow> None | Some m \<Rightarrow> follow_left i m)"

text \<open>
  The order that every reachable tree keeps: below a node, the keys on the left are
  smaller than the node's key and the keys on the right are not smaller than it.
\<close>

fun weakly_ordered :: "'v TreeNode option \<Rightarrow> bool" where
  "weakly_ordered None = True"
| "weakly_ordered (Some (TreeNode k v r l p)) =
     (weakly_ordered l \<and> weakly_ordered r \<and>
      list_all (\<lambda>x. x < k) (map key (priv_inorder l)) \<and>
      list_all (\<lambda>x. k \<le> x) (map key (priv_inorder r)))"

text \<open>No node under a node has a parent link.\<close>

fun parents_absent :: "'v TreeNode option \<Rightarrow> bool" where
  "parents_absent None = True"
| "parents_absent (Some (TreeNode k v r l p)) =
     (p = None \<and> parents_absent l \<and> parents_absent r)"

section \<open>Traversal and minimum\<close>

lemma keys_of_None [simp]: "keys_of None = []"
  by (simp add: keys_of_def)

lemma keys_of_Some [simp]:
  "keys_of (Some (TreeNode k v r l p)) = keys_of l @ [k] @ keys_of r"
  by (simp add: keys_of_def)

lemma py_or_None [simp]: "py_or None b = b"
  by (simp add: py_or_def)

lemma py_or_Some [simp]: "py_or (Some x) b = Some x"
  by (simp add: py_or_def)

lemma leftmost_no_left: "left (leftmost n) = None"
  by (induction n rule: leftmost.induct) (simp split: option.splits)

lemma leftmost_follow_left: "\<exists>i. follow_left i n = Some (leftmost n)"
proof (induction n rule: leftmost.induct)
  case (1 k v r l p)
  show ?case
  proof (cases l)
    case None
    have "follow_left 0 (TreeNode k v r l p) = Some (leftmost (TreeNode k v r l p))"
      using None by simp
    then show ?thesis by blast
  next
    case (Some ln)
    from 1 [OF Some] obtain i where "follow_left i ln = Some (leftmost ln)" by blast
    then have "follow_left (Suc i) (TreeNode k v r l p) = Some (leftmost (TreeNode k v r l p))"
      using Some by simp
    then show ?thesis by blast
  qed
qed

lemma leftmost_at_end: "left n = None \<Longrightarrow> leftmost n = n"
  by (cases n) simp

lemma follow_left_end_unique:
  "follow_left j n = Some m \<Longrightarrow> left m = None \<Longrightarrow> m = leftmost n"
proof (induction j arbitrary: n)
  case 0
  then show ?case by (simp add: leftmost_at_end)
next
  case (Suc j)
  then show ?case by (cases n) (auto split: option.splits)
qed

text \<open>
  C7: iterating the tree (\<open>__iter__\<close>) yields the same nodes in the same order as
  \<open>preorder\<close> started at the root, both with the default argument and with the root
  passed explicitly, for every tree; on the empty tree both yield nothing.
\<close>

theorem iter_is_preorder_from_root:
  "iter t = preorder t None \<and> iter t = preorder t (priv_root t) \<and>
   iter (BinarySearchTree_init None :: 'v BinarySearchTree) = [] \<and>
   preorder (BinarySearchTree_init None :: 'v BinarySearchTree) None = []"
  by (cases "priv_root t") (simp_all add: iter_def preorder_def BinarySearchTree_init_def)

text \<open>
  C8: on a tree without a root the three traversals yield nothing and \<open>return_min_key\<close>
  returns \<open>None\<close>; on a tree with root \<open>r\<close>, \<open>return_min_key\<close> returns a node that is
  reached from \<open>r\<close> by left links only and has no left child, and it is the only such
  node.
\<close>

theorem empty_traversals_and_minimum:
  "(priv_root t = None \<longrightarrow>
      inorder t None = [] \<and> preorder t None = [] \<and> postorder t None = [] \<and>
      return_min_key t = None) \<and>
   (priv_root t = Some r \<longrightarrow>
      (\<exists>m i. return_min_key t = Some m \<and> follow_left i r = Some m \<and> left m = None \<and>
         (\<forall>j m'. follow_left j r = Some m' \<and> left m' = None \<longrightarrow> m' = m)))"
proof -
  have empty: "inorder t None = [] \<and> preorder t None = [] \<and> postorder t None = [] \<and>
      return_min_key t = None" if "priv_root t = None"
    using that by (simp add: inorder_def preorder_def postorder_def return_min_key_def)
  have nonempty: "\<exists>m i. return_min_key t = Some m \<and> follow_left i r = Some m \<and>
      left m = None \<and> (\<forall>j m'. follow_left j r = Some m' \<and> left m' = None \<longrightarrow> m' = m)"
    if r: "priv_root t = Some r"
  proof -
    obtain i where i: "follow_left i r = Some (leftmost r)"
      using leftmost_follow_left by blast
    have "return_min_key t = Some (leftmost r)"
      using r by (simp add: return_min_key_def)
    moreover have "\<forall>j m'. follow_left j r = Some m' \<and> left m' = None \<longrightarrow> m' = leftmost r"
      using follow_left_end_unique by blast
    ultimately show ?thesis
      using i leftmost_no_left by blast
  qed
  from empty nonempty show ?thesis by blast
qed

theorem empty_traversals_and_minimum_witness:
  "priv_root (BinarySearchTree_init None :: unit BinarySearchTree) = None \<and>
   inorder (BinarySearchTree_init None :: unit BinarySearchTree) None = [] \<and>
   preorder (BinarySearchTree_init None :: unit BinarySearchTree) None = [] \<and>
   postorder (BinarySearchTree_init None :: unit BinarySearchTree) None = [] \<and>
   return_min_key (BinarySearchTree_init None :: unit BinarySearchTree) = None \<and>
   priv_root (snd (insert_all (BinarySearchTree_init None)
       [(PyInt 2, ()), (PyInt 1, ()), (PyInt 3, ())])) =
     Some (TreeNode 2 () (Some (TreeNode 3 () None None None))
       (Some (TreeNode 1 () None None None)) None) \<and>
   (\<exists>m i. return_min_key (snd (insert_all (BinarySearchTree_init None)
         [(PyInt 2, ()), (PyInt 1, ()), (PyInt 3, ())])) = Some m \<and>
      follow_left i (TreeNode 2 () (Some (TreeNode 3 () None None None))
         (Some (TreeNode 1 () None None None)) None) = Some m \<and> left m = None \<and> key m = 1)"
proof -
  let ?E = "BinarySearchTree_init None :: unit BinarySearchTree"
  let ?T = "snd (insert_all ?E [(PyInt 2, ()), (PyInt 1, ()), (PyInt 3, ())])"
  let ?R = "TreeNode 2 () (Some (TreeNode 3 () None None None))
       (Some (TreeNode 1 () None None None)) None"
  have e: "priv_root ?E = None" by (simp add: BinarySearchTree_init_def)
  have r: "priv_root ?T = Some ?R" by (simp add: BinarySearchTree_init_def insert_bst_def)
  have m: "return_min_key ?T = Some (TreeNode 1 () None None None)"
    by (simp add: BinarySearchTree_init_def insert_bst_def return_min_key_def)
  from empty_traversals_and_minimum [of ?E] e empty_traversals_and_minimum [of ?T ?R] r m
  show ?thesis by auto
qed

section \<open>Reachable trees\<close>

lemma reachable_insert_all: "reachable t \<Longrightarrow> reachable (snd (insert_all t kvs))"
proof (induction kvs arbitrary: t)
  case Nil
  then show ?case by simp
next
  case (Cons kv kvs)
  obtain k val where kv: "kv = (k, val)" by (cases kv)
  obtain e t' where ins: "insert_bst t k val = (e, t')" by (cases "insert_bst t k val")
  have r: "reachable t'"
    using reachable_insert [OF Cons.prems, of k val] ins by simp
  show ?case
  proof (cases e)
    case None
    then show ?thesis using Cons.IH [OF r] kv ins by simp
  next
    case (Some err)
    then show ?thesis using r kv ins by simp
  qed
qed

lemma reachable_remove_all: "reachable t \<Longrightarrow> reachable (snd (remove_all t ks))"
proof (induction ks arbitrary: t)
  case Nil
  then show ?case by simp
next
  case (Cons k ks)
  obtain e t' where rm: "remove t k = (e, t')" by (cases "remove t k")
  have r: "reachable t'"
    using reachable_remove [OF Cons.prems, of k] rm by simp
  show ?case
  proof (cases e)
    case None
    then show ?thesis using Cons.IH [OF r] rm by simp
  next
    case (Some err)
    then show ?thesis using r rm by simp
  qed
qed

section \<open>Removal of a node with two children\<close>

text \<open>
  Where every key under a node is larger than the key searched for, \<open>remove_recursive\<close>
  finds nothing and changes nothing. That is the right subtree of the node holding the
  key in a strictly ordered tree, so the call on \<open>node.right\<close> that follows the copy
  of the successor leaves the successor where it is.
\<close>

lemma remove_recursive_smaller_key:
  "\<forall>x \<in> set (keys_of r). k < x \<Longrightarrow> remove_recursive k r = (r, False)"
  by (induction k r rule: remove_recursive.induct) auto

lemma remove_recursive_two_children:
  assumes "\<forall>x \<in> set (keys_of (Some rn)). k < x"
  shows "remove_recursive k (Some (TreeNode k v (Some rn) (Some ln) p)) =
     (Some (TreeNode (key (leftmost rn)) (node_value (leftmost rn)) (Some rn) (Some ln) p), True)"
  using remove_recursive_smaller_key [OF assms] by (simp add: Let_def)

text \<open>
  C1, evaluated on the code: keys 2, 1, 3 are inserted, with any values, and 2 is
  removed. The root has two children; the successor's key 3 and value are copied into
  the root, and the call \<open>remove_recursive(node.right)\<close> that follows still searches
  for the removed key 2, finds nothing and leaves the right subtree as it was. The key 2
  is gone, and the key 3 is in the tree twice.
\<close>

theorem remove_two_children_keeps_successor:
  "let t = snd (insert_all (BinarySearchTree_init None)
             [(PyInt 2, a), (PyInt 1, b), (PyInt 3, c)]);
       t' = snd (remove t (PyInt 2))
   in fst (remove t (PyInt 2)) = None \<and>
      priv_root t = Some (TreeNode 2 a (Some (TreeNode 3 c None None None))
         (Some (TreeNode 1 b None None None)) None) \<and>
      priv_root t' = Some (TreeNode 3 c (Some (TreeNode 3 c None None None))
         (Some (TreeNode 1 b None None None)) None) \<and>
      keys_of (priv_root t') = [1, 3, 3] \<and>
      2 \<notin> set (keys_of (priv_root t')) \<and>
      count_list (keys_of (priv_root t')) 3 = 2"
  by (simp add: BinarySearchTree_init_def insert_bst_def remove_def keys_of_def)

text \<open>
  C2, evaluated on the code: after inserting 5, 3, 8, 1, 4, 7, 9 with any values and
  removing 5, the root holds key 7 and the size is 6, and the inorder keys are
  1, 3, 4, 7, 7, 8, 9, which is not strictly ascending.
\<close>

theorem roundtrip_remove_5:
  "let t = snd (insert_all (BinarySearchTree_init None)
             [(PyInt 5, a), (PyInt 3, b), (PyInt 8, c), (PyInt 1, d), (PyInt 4, e),
              (PyInt 7, f), (PyInt 9, g)]);
       t' = snd (remove t (PyInt 5))
   in fst (insert_all (BinarySearchTree_init None)
             [(PyInt 5, a), (PyInt 3, b), (PyInt 8, c), (PyInt 1, d), (PyInt 4, e),
              (PyInt 7, f), (PyInt 9, g)]) = None \<and>
      size_bst t = 7 \<and>
      fst (remove t (PyInt 5)) = None \<and>
      map key (inorder t' None) = [1, 3, 4, 7, 7, 8, 9] \<and>
      \<not> sorted_wrt (<) (map key (inorder t' None)) \<and>
      size_bst t' = 6 \<and>
      map_option key (priv_root t') = Some 7"
  by (simp add: BinarySearchTree_init_def insert_bst_def remove_def inorder_def size_bst_def)

text \<open>
  C3, evaluated on the code: after inserting 2, 1, 3 and removing 2 the size is 2 while
  every traversal yields 3 nodes; removing 1, 3 and 3 from there succeeds each time and
  leaves a tree with no node whose size is -1. Every call in both runs returns.
\<close>

theorem size_differs_from_node_count:
  "let t = snd (insert_all (BinarySearchTree_init None)
             [(PyInt 2, a), (PyInt 1, b), (PyInt 3, c)]);
       t' = snd (remove_all t [PyInt 2]);
       t'' = snd (remove_all t [PyInt 2, PyInt 1, PyInt 3, PyInt 3])
   in fst (insert_all (BinarySearchTree_init None)
             [(PyInt 2, a), (PyInt 1, b), (PyInt 3, c)]) = None \<and>
      fst (remove_all t [PyInt 2]) = None \<and> reachable t' \<and>
      size_bst t' = 2 \<and>
      length (inorder t' None) = 3 \<and> length (preorder t' None) = 3 \<and>
      length (postorder t' None) = 3 \<and> length (iter t') = 3 \<and>
      fst (remove_all t [PyInt 2, PyInt 1, PyInt 3, PyInt 3]) = None \<and> reachable t'' \<and>
      priv_root t'' = None \<and> inorder t'' None = [] \<and> size_bst t'' = - 1"
proof -
  let ?t = "snd (insert_all (BinarySearchTree_init None)
             [(PyInt 2, a), (PyInt 1, b), (PyInt 3, c)])"
  have r0: "reachable ?t"
    by (rule reachable_insert_all) (rule reachable_init)
  have r1: "reachable (snd (remove_all ?t [PyInt 2]))"
    using r0 by (rule reachable_remove_all)
  have r2: "reachable (snd (remove_all ?t [PyInt 2, PyInt 1, PyInt 3, PyInt 3]))"
    using r0 by (rule reachable_remove_all)
  have ev: "fst (insert_all (BinarySearchTree_init None)
             [(PyInt 2, a), (PyInt 1, b), (PyInt 3, c)]) = None \<and>
      fst (remove_all ?t [PyInt 2]) = None \<and>
      size_bst (snd (remove_all ?t [PyInt 2])) = 2 \<and>
      length (inorder (snd (remove_all ?t [PyInt 2])) None) = 3 \<and>
      length (preorder (snd (remove_all ?t [PyInt 2])) None) = 3 \<and>
      length (postorder (snd (remove_all ?t [PyInt 2])) None) = 3 \<and>
      length (iter (snd (remove_all ?t [PyInt 2]))) = 3 \<and>
      fst (remove_all ?t [PyInt 2, PyInt 1, PyInt 3, PyInt 3]) = None \<and>
      priv_root (snd (remove_all ?t [PyInt 2, PyInt 1, PyInt 3, PyInt 3])) = None \<and>
      inorder (snd (remove_all ?t [PyInt 2, PyInt 1, PyInt 3, PyInt 3])) None = [] \<and>
      size_bst (snd (remove_all ?t [PyInt 2, PyInt 1, PyInt 3, PyInt 3])) = - 1"
    by (simp add: BinarySearchTree_init_def insert_bst_def remove_def inorder_def
        preorder_def postorder_def iter_def size_bst_def)
  from r1 r2 ev show ?thesis by (simp add: Let_def)
qed

section \<open>The validity check\<close>

text \<open>
  C4, evaluated on the code: \<open>is_valid\<close> returns \<open>None\<close> for every tree, so never
  \<open>True\<close>; and the check it defines without calling it, started with infinite bounds,
  is false on the tree that inserting 2, 1, 3 and removing 2 leaves.
\<close>

theorem is_valid_returns_nothing:
  "is_valid t = None \<and> is_valid t \<noteq> Some True \<and>
   is_valid (BinarySearchTree_init None) = None \<and>
   \<not> is_valid_recursive
       (priv_root (snd (remove (snd (insert_all (BinarySearchTree_init None)
          [(PyInt 2, a), (PyInt 1, b), (PyInt 3, c)])) (PyInt 2)))) NegInf PosInf"
  by (simp add: is_valid_def BinarySearchTree_init_def insert_bst_def remove_def)


section \<open>Insertion of distinct keys\<close>

lemma find_absent: "k \<notin> set (keys_of r) \<Longrightarrow> priv_find_recursive r k = None"
  by (induction r k rule: priv_find_recursive.induct) auto

lemma insert_found:
  "priv_find_recursive (Some n) k \<noteq> None \<Longrightarrow>
   priv_insert_recursive n sz k val = (Some KeyError, n, sz)"
proof (induction n sz k val rule: priv_insert_recursive.induct)
  case (1 nk nv r l p sz k val)
  then show ?case
    by (cases l; cases r) (auto split: if_splits)
qed

lemma insert_not_found:
  "priv_find_recursive (Some n) k = None \<Longrightarrow>
   \<exists>n'. priv_insert_recursive n sz k val = (None, n', sz + 1) \<and>
        set (keys_of (Some n')) = Set.insert k (set (keys_of (Some n))) \<and>
        length (priv_inorder (Some n')) = length (priv_inorder (Some n)) + 1 \<and>
        key n' = key n \<and>
        (sorted_wrt (<) (keys_of (Some n)) \<longrightarrow> sorted_wrt (<) (keys_of (Some n')))"
proof (induction n sz k val rule: priv_insert_recursive.induct)
  case (1 nk nv r l p sz k val)
  show ?case
  proof (cases "k < nk")
    case True
    show ?thesis
    proof (cases l)
      case None
      then show ?thesis using True by (auto simp: sorted_wrt_append)
    next
      case (Some ln)
      have "priv_find_recursive (Some ln) k = None"
        using "1.prems" True Some by (simp split: if_splits)
      from "1.IH"(1) [OF _ True Some this] True obtain ln' where
        "priv_insert_recursive ln sz k val = (None, ln', sz + 1)"
        "set (keys_of (Some ln')) = Set.insert k (set (keys_of (Some ln)))"
        "length (priv_inorder (Some ln')) = length (priv_inorder (Some ln)) + 1"
        "sorted_wrt (<) (keys_of (Some ln)) \<longrightarrow> sorted_wrt (<) (keys_of (Some ln'))"
        by auto
      then show ?thesis using True Some by (auto simp: sorted_wrt_append)
    qed
  next
    case False
    have ne: "k \<noteq> nk" using "1.prems" by (auto split: if_splits)
    then have gt: "nk < k" using False by simp
    show ?thesis
    proof (cases r)
      case None
      then show ?thesis using False ne gt by (auto simp: sorted_wrt_append)
    next
      case (Some rn)
      have "priv_find_recursive (Some rn) k = None"
        using "1.prems" False ne Some by (simp split: if_splits)
      from "1.IH"(2) [OF ne False Some this] obtain rn' where
        "priv_insert_recursive rn sz k val = (None, rn', sz + 1)"
        "set (keys_of (Some rn')) = Set.insert k (set (keys_of (Some rn)))"
        "length (priv_inorder (Some rn')) = length (priv_inorder (Some rn)) + 1"
        "sorted_wrt (<) (keys_of (Some rn)) \<longrightarrow> sorted_wrt (<) (keys_of (Some rn'))"
        by auto
      then show ?thesis using False ne gt Some by (auto simp: sorted_wrt_append)
    qed
  qed
qed

lemma inorder_default: "inorder t None = priv_inorder (priv_root t)"
  by (cases "priv_root t") (simp_all add: inorder_def)

lemma insert_bst_absent:
  assumes "k \<notin> set (keys_of (priv_root t))"
  shows "\<exists>t'. insert_bst t (PyInt k) val = (None, t') \<and>
           set (keys_of (priv_root t')) = Set.insert k (set (keys_of (priv_root t))) \<and>
           length (priv_inorder (priv_root t')) = length (priv_inorder (priv_root t)) + 1 \<and>
           priv_size t' = priv_size t + 1 \<and>
           (sorted_wrt (<) (keys_of (priv_root t)) \<longrightarrow> sorted_wrt (<) (keys_of (priv_root t')))"
proof (cases "priv_root t")
  case None
  then show ?thesis by (simp add: insert_bst_def)
next
  case (Some n)
  have "priv_find_recursive (Some n) k = None"
    using assms Some find_absent by metis
  from insert_not_found [OF this, of "priv_size t" val] obtain n' where
    "priv_insert_recursive n (priv_size t) k val = (None, n', priv_size t + 1)"
    "set (keys_of (Some n')) = Set.insert k (set (keys_of (Some n)))"
    "length (priv_inorder (Some n')) = length (priv_inorder (Some n)) + 1"
    "sorted_wrt (<) (keys_of (Some n)) \<longrightarrow> sorted_wrt (<) (keys_of (Some n'))"
    by blast
  then show ?thesis using Some by (simp add: insert_bst_def)
qed

lemma insert_all_distinct:
  "distinct (map fst kvs) \<Longrightarrow> set (keys_of (priv_root t)) \<inter> set (map fst kvs) = {} \<Longrightarrow>
   sorted_wrt (<) (keys_of (priv_root t)) \<Longrightarrow>
   \<exists>t'. insert_all t (map (\<lambda>(k, v). (PyInt k, v)) kvs) = (None, t') \<and>
        sorted_wrt (<) (keys_of (priv_root t')) \<and>
        set (keys_of (priv_root t')) = set (keys_of (priv_root t)) \<union> set (map fst kvs) \<and>
        length (priv_inorder (priv_root t')) = length (priv_inorder (priv_root t)) + length kvs \<and>
        priv_size t' = priv_size t + int (length kvs)"
proof (induction kvs arbitrary: t)
  case Nil
  then show ?case by simp
next
  case (Cons kv kvs)
  obtain k v where kv: "kv = (k, v)" by (cases kv)
  have absent: "k \<notin> set (keys_of (priv_root t))"
    using Cons.prems(2) kv by auto
  from insert_bst_absent [OF absent, of v] obtain t1 where t1:
    "insert_bst t (PyInt k) v = (None, t1)"
    "set (keys_of (priv_root t1)) = Set.insert k (set (keys_of (priv_root t)))"
    "length (priv_inorder (priv_root t1)) = length (priv_inorder (priv_root t)) + 1"
    "priv_size t1 = priv_size t + 1"
    "sorted_wrt (<) (keys_of (priv_root t1))"
    using Cons.prems(3) by blast
  have d: "distinct (map fst kvs)" using Cons.prems(1) by simp
  have disj: "set (keys_of (priv_root t1)) \<inter> set (map fst kvs) = {}"
    using t1(2) Cons.prems(1,2) kv by auto
  from Cons.IH [OF d disj t1(5)] obtain t' where t':
    "insert_all t1 (map (\<lambda>(k, v). (PyInt k, v)) kvs) = (None, t')"
    "sorted_wrt (<) (keys_of (priv_root t'))"
    "set (keys_of (priv_root t')) = set (keys_of (priv_root t1)) \<union> set (map fst kvs)"
    "length (priv_inorder (priv_root t')) = length (priv_inorder (priv_root t1)) + length kvs"
    "priv_size t' = priv_size t1 + int (length kvs)"
    by blast
  have "insert_all t (map (\<lambda>(k, v). (PyInt k, v)) (kv # kvs)) = (None, t')"
    using kv t1(1) t'(1) by simp
  moreover have "set (keys_of (priv_root t')) = set (keys_of (priv_root t)) \<union> set (map fst (kv # kvs))"
    using t'(3) t1(2) kv by auto
  moreover have "length (priv_inorder (priv_root t')) = length (priv_inorder (priv_root t)) + length (kv # kvs)"
    using t'(4) t1(3) by simp
  moreover have "priv_size t' = priv_size t + int (length (kv # kvs))"
    using t'(5) t1(4) by simp
  ultimately show ?case using t'(2) by blast
qed

text \<open>
  C5: integer keys that are pairwise distinct are inserted one after the other, with any
  values, into an empty tree. Every insertion returns, and the inorder traversal of the
  tree then yields strictly ascending keys: exactly the inserted keys, one node each.
  (Recursion depth is taken as unbounded, as in the rest of the development.)
\<close>

theorem inorder_ascending_after_distinct_inserts:
  "distinct (map fst kvs) \<Longrightarrow>
   \<exists>t. insert_all (BinarySearchTree_init None) (map (\<lambda>(k, v). (PyInt k, v)) kvs) = (None, t) \<and>
       sorted_wrt (<) (map key (inorder t None)) \<and>
       set (map key (inorder t None)) = set (map fst kvs) \<and>
       length (inorder t None) = length kvs \<and>
       size_bst t = int (length kvs)"
proof -
  assume d: "distinct (map fst kvs)"
  let ?E = "BinarySearchTree_init None :: 'a BinarySearchTree"
  have e: "priv_root ?E = None" "priv_size ?E = 0"
    by (simp_all add: BinarySearchTree_init_def)
  have "set (keys_of (priv_root ?E)) \<inter> set (map fst kvs) = {}"
    "sorted_wrt (<) (keys_of (priv_root ?E))"
    using e by simp_all
  from insert_all_distinct [OF d this] obtain t where
    "insert_all ?E (map (\<lambda>(k, v). (PyInt k, v)) kvs) = (None, t)"
    "sorted_wrt (<) (keys_of (priv_root t))"
    "set (keys_of (priv_root t)) = set (keys_of (priv_root ?E)) \<union> set (map fst kvs)"
    "length (priv_inorder (priv_root t)) = length (priv_inorder (priv_root ?E)) + length kvs"
    "priv_size t = priv_size ?E + int (length kvs)"
    by blast
  then show ?thesis
    using e by (auto simp: inorder_default keys_of_def size_bst_def)
qed

theorem inorder_ascending_after_distinct_inserts_witness:
  "distinct (map fst [(5::int, ''e''), (3, ''c''), (8, ''h''), (1, ''a'')]) \<and>
   (\<exists>t. insert_all (BinarySearchTree_init None)
          [(PyInt 5, ''e''), (PyInt 3, ''c''), (PyInt 8, ''h''), (PyInt 1, ''a'')] = (None, t) \<and>
       sorted_wrt (<) (map key (inorder t None)) \<and>
       set (map key (inorder t None)) = {1, 3, 5, 8} \<and>
       length (inorder t None) = 4 \<and> size_bst t = 4)"
proof -
  have d: "distinct (map fst [(5::int, ''e''), (3, ''c''), (8, ''h''), (1, ''a'')])"
    by simp
  from inorder_ascending_after_distinct_inserts [OF d] d show ?thesis
    by auto
qed


section \<open>Parent links\<close>

lemma depth_no_parent: "parent n = None \<Longrightarrow> depth n = 0"
  by (cases n) simp

lemma parents_absent_nodes:
  "parents_absent r \<Longrightarrow> n \<in> set (priv_preorder r) \<Longrightarrow> parent n = None"
  by (induction r rule: priv_preorder.induct) auto

lemma find_in_preorder:
  "priv_find_recursive r k = Some n \<Longrightarrow> n \<in> set (priv_preorder r) \<and> key n = k"
  by (induction r k rule: priv_find_recursive.induct) (auto split: if_splits)

lemma insert_parents_absent:
  "priv_insert_recursive n sz k val = (e, n', sz') \<Longrightarrow> parents_absent (Some n) \<Longrightarrow>
   parents_absent (Some n')"
proof (induction n sz k val arbitrary: e n' sz' rule: priv_insert_recursive.induct)
  case (1 nk nv r l p sz k val)
  then show ?case
    by (cases l; cases r) (auto split: prod.splits if_splits)
qed

lemma remove_parents_absent:
  "remove_recursive k r = (r', b) \<Longrightarrow> parents_absent r \<Longrightarrow> parents_absent r'"
proof (induction k r arbitrary: r' b rule: remove_recursive.induct)
  case (1 k)
  then show ?case by simp
next
  case (2 k nk nv r l p)
  show ?case
  proof (cases "k < nk")
    case True
    then show ?thesis using 2 by (auto split: prod.splits)
  next
    case False
    note nlt = this
    show ?thesis
    proof (cases "nk < k")
      case True
      then show ?thesis using 2 nlt by (auto split: prod.splits)
    next
      case False
      show ?thesis
      proof (cases l)
        case None
        then show ?thesis using "2.prems" nlt False by auto
      next
        case (Some ln)
        note l = this
        show ?thesis
        proof (cases r)
          case None
          then show ?thesis using "2.prems" nlt False l by auto
        next
          case (Some rn)
          obtain r1 u where rr: "remove_recursive k r = (r1, u)"
            by (cases "remove_recursive k r")
          have "parents_absent r" using "2.prems"(2) by simp
          from "2.IH"(3) [OF nlt _ l Some refl rr this] False
          have "parents_absent r1" by simp
          then show ?thesis
            using "2.prems" nlt False l Some rr by (auto simp: Let_def)
        qed
      qed
    qed
  qed
qed

lemma insert_bst_parents_absent:
  "parents_absent (priv_root t) \<Longrightarrow> parents_absent (priv_root (snd (insert_bst t k val)))"
proof (cases k)
  case (PyInt i)
  assume pa: "parents_absent (priv_root t)"
  show ?thesis
  proof (cases "priv_root t")
    case None
    then show ?thesis using PyInt by (simp add: insert_bst_def)
  next
    case (Some n)
    obtain e n' sz' where ins: "priv_insert_recursive n (priv_size t) i val = (e, n', sz')"
      by (cases "priv_insert_recursive n (priv_size t) i val")
    have "parents_absent (Some n')"
      using insert_parents_absent [OF ins] pa Some by simp
    then show ?thesis
      using PyInt Some ins by (simp add: insert_bst_def)
  qed
qed (simp_all add: insert_bst_def)

lemma remove_bst_parents_absent:
  "parents_absent (priv_root t) \<Longrightarrow> parents_absent (priv_root (snd (remove t k)))"
proof (cases k)
  case (PyInt i)
  assume pa: "parents_absent (priv_root t)"
  obtain r' b where rr: "remove_recursive i (priv_root t) = (r', b)"
    by (cases "remove_recursive i (priv_root t)")
  have "parents_absent r'"
    using remove_parents_absent [OF rr pa] .
  then show ?thesis
    using PyInt rr by (simp add: remove_def)
qed (simp_all add: remove_def)

lemma reachable_parents_absent: "reachable t \<Longrightarrow> parents_absent (priv_root t)"
proof (induction rule: reachable.induct)
  case reachable_init
  then show ?case by (simp add: BinarySearchTree_init_def)
next
  case (reachable_insert t k val)
  from reachable_insert.IH show ?case by (rule insert_bst_parents_absent)
next
  case (reachable_remove t k)
  from reachable_remove.IH show ?case by (rule remove_bst_parents_absent)
qed

lemma preorder_default: "preorder t None = priv_preorder (priv_root t)"
  by (cases "priv_root t") (simp_all add: preorder_def)

lemma find_bst_result:
  "find_bst t k = (Inr n, t') \<Longrightarrow>
   \<exists>i. k = PyInt i \<and> priv_find_recursive (priv_root t) i = Some n \<and> t' = t"
  by (cases k) (auto simp: find_bst_def split: option.splits)

text \<open>
  C9: every node that \<open>insert\<close> creates has no parent, and \<open>insert\<close> and \<open>remove\<close>
  leave the parent link of every node as it is. So in every tree built from the empty
  tree by calls of \<open>insert\<close> and \<open>remove\<close>, every node of the tree, and so every node that
  \<open>find\<close> returns, has no parent and has depth 0.
\<close>

theorem parents_absent_and_depth_zero:
  "reachable t \<Longrightarrow>
   (\<forall>n \<in> set (preorder t None). parent n = None \<and> depth n = 0) \<and>
   (\<forall>k n t'. find_bst t k = (Inr n, t') \<longrightarrow> parent n = None \<and> depth n = 0)"
proof -
  assume "reachable t"
  then have pa: "parents_absent (priv_root t)"
    by (rule reachable_parents_absent)
  have nodes: "parent n = None \<and> depth n = 0" if "n \<in> set (priv_preorder (priv_root t))" for n
    using parents_absent_nodes [OF pa that] depth_no_parent by blast
  have "parent n = None \<and> depth n = 0" if "find_bst t k = (Inr n, t')" for k n t'
  proof -
    from find_bst_result [OF that] obtain i where
      "priv_find_recursive (priv_root t) i = Some n" by blast
    then have "n \<in> set (priv_preorder (priv_root t))"
      using find_in_preorder by blast
    then show ?thesis by (rule nodes)
  qed
  then show ?thesis using nodes by (simp add: preorder_default)
qed

theorem parents_absent_and_depth_zero_witness:
  "reachable (snd (insert_all (BinarySearchTree_init None)
      [(PyInt 2, ''b''), (PyInt 1, ''a''), (PyInt 3, ''c'')])) \<and>
   find_bst (snd (insert_all (BinarySearchTree_init None)
      [(PyInt 2, ''b''), (PyInt 1, ''a''), (PyInt 3, ''c'')])) (PyInt 3) =
     (Inr (TreeNode 3 ''c'' None None None),
      snd (insert_all (BinarySearchTree_init None)
      [(PyInt 2, ''b''), (PyInt 1, ''a''), (PyInt 3, ''c'')])) \<and>
   TreeNode 3 ''c'' None None None \<in> set (preorder (snd (insert_all (BinarySearchTree_init None)
      [(PyInt 2, ''b''), (PyInt 1, ''a''), (PyInt 3, ''c'')])) None) \<and>
   parent (TreeNode 3 ''c'' None None None) = None \<and>
   depth (TreeNode 3 ''c'' None None None) = 0"
proof -
  let ?T = "snd (insert_all (BinarySearchTree_init None)
      [(PyInt 2, ''b''), (PyInt 1, ''a''), (PyInt 3, ''c'')])"
  have r: "reachable ?T"
    by (rule reachable_insert_all) (rule reachable_init)
  have f: "find_bst ?T (PyInt 3) = (Inr (TreeNode 3 ''c'' None None None), ?T)"
    by (simp add: BinarySearchTree_init_def insert_bst_def find_bst_def)
  have m: "TreeNode 3 ''c'' None None None \<in> set (preorder ?T None)"
    by (simp add: BinarySearchTree_init_def insert_bst_def preorder_def)
  from parents_absent_and_depth_zero [OF r] f m r show ?thesis
    by blast
qed


section \<open>Operations that raise\<close>

lemma insert_raises:
  "priv_insert_recursive n sz k val = (Some e, n', sz') \<Longrightarrow>
   e = KeyError \<and> n' = n \<and> sz' = sz \<and> priv_find_recursive (Some n) k \<noteq> None"
proof (cases "priv_find_recursive (Some n) k")
  case None
  assume a: "priv_insert_recursive n sz k val = (Some e, n', sz')"
  from insert_not_found [OF None, of sz val] a show ?thesis by auto
next
  case (Some m)
  assume a: "priv_insert_recursive n sz k val = (Some e, n', sz')"
  have "priv_find_recursive (Some n) k \<noteq> None" using Some by simp
  from insert_found [OF this, of sz val] a this show ?thesis by simp
qed

lemma remove_flag:
  "remove_recursive k r = (r', b) \<Longrightarrow> b = (priv_find_recursive r k \<noteq> None)"
proof (induction k r arbitrary: r' b rule: remove_recursive.induct)
  case (1 k)
  then show ?case by simp
next
  case (2 k nk nv r l p)
  show ?case
  proof (cases "k < nk")
    case True
    then show ?thesis using 2 by (auto split: prod.splits)
  next
    case False
    note nlt = this
    show ?thesis
    proof (cases "nk < k")
      case True
      then show ?thesis using 2 nlt by (auto split: prod.splits)
    next
      case False
      then have "k = nk" using nlt by simp
      then show ?thesis using "2.prems"
        by (cases l; cases r) (auto simp: Let_def split: prod.splits)
    qed
  qed
qed

lemma remove_not_found_unchanged:
  "remove_recursive k r = (r', False) \<Longrightarrow> r' = r"
proof (induction k r arbitrary: r' rule: remove_recursive.induct)
  case (1 k)
  then show ?case by simp
next
  case (2 k nk nv r l p)
  show ?case
  proof (cases "k < nk")
    case True
    then show ?thesis using 2 by (auto split: prod.splits)
  next
    case False
    note nlt = this
    show ?thesis
    proof (cases "nk < k")
      case True
      then show ?thesis using 2 nlt by (auto split: prod.splits)
    next
      case False
      then have "k = nk" using nlt by simp
      then show ?thesis using "2.prems"
        by (cases l; cases r) (auto simp: Let_def split: prod.splits)
    qed
  qed
qed

lemma find_present:
  "weakly_ordered r \<Longrightarrow> k \<in> set (keys_of r) \<Longrightarrow> priv_find_recursive r k \<noteq> None"
proof (induction r k rule: priv_find_recursive.induct)
  case (1 k)
  then show ?case by simp
next
  case (2 nk nv r l p k)
  then show ?case
    by (fastforce simp: list_all_iff keys_of_def)
qed

lemma weakly_ordered_Some:
  "weakly_ordered (Some (TreeNode k v r l p)) =
     (weakly_ordered l \<and> weakly_ordered r \<and>
      (\<forall>x \<in> set (keys_of l). x < k) \<and> (\<forall>x \<in> set (keys_of r). k \<le> x))"
  by (simp add: list_all_iff keys_of_def)

lemma insert_weakly_ordered:
  "priv_insert_recursive n sz k val = (e, n', sz') \<Longrightarrow> weakly_ordered (Some n) \<Longrightarrow>
   weakly_ordered (Some n') \<and> set (keys_of (Some n')) \<subseteq> Set.insert k (set (keys_of (Some n)))"
proof (induction n sz k val arbitrary: e n' sz' rule: priv_insert_recursive.induct)
  case (1 nk nv r l p sz k val)
  note wo = "1.prems"(2) [unfolded weakly_ordered_Some]
  show ?case
  proof (cases "k = nk")
    case True
    then show ?thesis using "1.prems" by auto
  next
    case False
    note ne = this
    show ?thesis
    proof (cases "k < nk")
      case True
      show ?thesis
      proof (cases l)
        case None
        then show ?thesis using "1.prems"(1) wo ne True
          by (auto simp: weakly_ordered_Some simp del: weakly_ordered.simps)
      next
        case (Some ln)
        obtain e1 ln' s1 where ins: "priv_insert_recursive ln sz k val = (e1, ln', s1)"
          by (cases "priv_insert_recursive ln sz k val")
        have "weakly_ordered (Some ln)" using wo Some by simp
        from "1.IH"(1) [OF ne True Some ins this]
        have ih: "weakly_ordered (Some ln')"
          "set (keys_of (Some ln')) \<subseteq> Set.insert k (set (keys_of (Some ln)))"
          by simp_all
        have n': "n' = TreeNode nk nv r (Some ln') p"
          using "1.prems"(1) ne True Some ins by simp
        have "\<forall>x \<in> set (keys_of (Some ln')). x < nk"
          using ih(2) wo Some True by auto
        then have "weakly_ordered (Some n')"
          unfolding n' weakly_ordered_Some using ih(1) wo by simp
        moreover have "set (keys_of (Some n')) \<subseteq> Set.insert k (set (keys_of (Some (TreeNode nk nv r l p))))"
          unfolding n' using ih(2) Some by auto
        ultimately show ?thesis by simp
      qed
    next
      case False
      then have gt: "nk < k" using ne by simp
      show ?thesis
      proof (cases r)
        case None
        then show ?thesis using "1.prems"(1) wo ne False gt
          by (auto simp: weakly_ordered_Some simp del: weakly_ordered.simps)
      next
        case (Some rn)
        obtain e1 rn' s1 where ins: "priv_insert_recursive rn sz k val = (e1, rn', s1)"
          by (cases "priv_insert_recursive rn sz k val")
        have "weakly_ordered (Some rn)" using wo Some by simp
        from "1.IH"(2) [OF ne False Some ins this]
        have ih: "weakly_ordered (Some rn')"
          "set (keys_of (Some rn')) \<subseteq> Set.insert k (set (keys_of (Some rn)))"
          by simp_all
        have n': "n' = TreeNode nk nv (Some rn') l p"
          using "1.prems"(1) ne False Some ins by simp
        have "\<forall>x \<in> set (keys_of (Some rn')). nk \<le> x"
          using ih(2) wo Some gt by auto
        then have "weakly_ordered (Some n')"
          unfolding n' weakly_ordered_Some using ih(1) wo by simp
        moreover have "set (keys_of (Some n')) \<subseteq> Set.insert k (set (keys_of (Some (TreeNode nk nv r l p))))"
          unfolding n' using ih(2) Some by auto
        ultimately show ?thesis by simp
      qed
    qed
  qed
qed

lemma leftmost_key_in: "key (leftmost n) \<in> set (keys_of (Some n))"
  by (induction n rule: leftmost.induct) (auto split: option.splits)

lemma leftmost_key_least:
  "weakly_ordered (Some n) \<Longrightarrow> x \<in> set (keys_of (Some n)) \<Longrightarrow> key (leftmost n) \<le> x"
proof (induction n rule: leftmost.induct)
  case (1 k v r l p)
  note wo = "1.prems"(1) [unfolded weakly_ordered_Some]
  show ?case
  proof (cases l)
    case None
    then show ?thesis using "1.prems"(2) wo by auto
  next
    case (Some ln)
    have in_l: "key (leftmost ln) \<in> set (keys_of l)"
      using leftmost_key_in [of ln] Some by simp
    then have lt: "key (leftmost ln) < k" using wo by blast
    have "x \<in> set (keys_of (Some ln)) \<or> x = k \<or> x \<in> set (keys_of r)"
      using "1.prems"(2) Some by auto
    then show ?thesis
    proof (elim disjE)
      assume "x \<in> set (keys_of (Some ln))"
      then show ?thesis using "1.IH" [OF Some] wo Some by simp
    next
      assume "x = k"
      then show ?thesis using lt Some by simp
    next
      assume "x \<in> set (keys_of r)"
      then have "k \<le> x" using wo by blast
      then show ?thesis using lt Some by simp
    qed
  qed
qed

lemma remove_weakly_ordered:
  "remove_recursive k r = (r', b) \<Longrightarrow> weakly_ordered r \<Longrightarrow>
   weakly_ordered r' \<and> set (keys_of r') \<subseteq> set (keys_of r)"
proof (induction k r arbitrary: r' b rule: remove_recursive.induct)
  case (1 k)
  then show ?case by simp
next
  case (2 k nk nv r l p)
  note wo = "2.prems"(2) [unfolded weakly_ordered_Some]
  show ?case
  proof (cases "k < nk")
    case True
    obtain l1 u where rl: "remove_recursive k l = (l1, u)"
      by (cases "remove_recursive k l")
    from "2.IH"(1) [OF True rl] wo
    have ih: "weakly_ordered l1" "set (keys_of l1) \<subseteq> set (keys_of l)" by simp_all
    have r': "r' = Some (TreeNode nk nv r l1 p)"
      using "2.prems"(1) True rl by simp
    show ?thesis
      unfolding r' weakly_ordered_Some using ih wo by auto
  next
    case False
    note nlt = this
    show ?thesis
    proof (cases "nk < k")
      case True
      obtain r1 u where rr: "remove_recursive k r = (r1, u)"
        by (cases "remove_recursive k r")
      from "2.IH"(2) [OF nlt True rr] wo
      have ih: "weakly_ordered r1" "set (keys_of r1) \<subseteq> set (keys_of r)" by simp_all
      have r': "r' = Some (TreeNode nk nv r1 l p)"
        using "2.prems"(1) nlt True rr by simp
      show ?thesis
        unfolding r' weakly_ordered_Some using ih wo by auto
    next
      case False
      show ?thesis
      proof (cases l)
        case None
        then show ?thesis using "2.prems"(1) wo nlt False by auto
      next
        case (Some ln)
        note l = this
        show ?thesis
        proof (cases r)
          case None
          then show ?thesis using "2.prems"(1) wo nlt False l by auto
        next
          case (Some rn)
          obtain r1 u where rr: "remove_recursive k r = (r1, u)"
            by (cases "remove_recursive k r")
          have "weakly_ordered r" using wo by simp
          from "2.IH"(3) [OF nlt False l Some refl rr this]
          have ih: "weakly_ordered r1" "set (keys_of r1) \<subseteq> set (keys_of r)" by simp_all
          let ?s = "leftmost rn"
          have r': "r' = Some (TreeNode (key ?s) (node_value ?s) r1 l p)"
            using "2.prems"(1) nlt False l Some rr by (simp add: Let_def)
          have s_in: "key ?s \<in> set (keys_of r)"
            using leftmost_key_in [of rn] Some by simp
          then have "nk \<le> key ?s" using wo by blast
          then have left_ok: "\<forall>x \<in> set (keys_of l). x < key ?s"
            using wo by fastforce
          have "\<forall>x \<in> set (keys_of r). key ?s \<le> x"
            using leftmost_key_least [of rn] wo Some by simp
          then have right_ok: "\<forall>x \<in> set (keys_of r1). key ?s \<le> x"
            using ih(2) by blast
          have "weakly_ordered r'"
            unfolding r' weakly_ordered_Some using ih(1) wo left_ok right_ok by simp
          moreover have "set (keys_of r') \<subseteq> set (keys_of (Some (TreeNode nk nv r l p)))"
            unfolding r' using ih(2) s_in by auto
          ultimately show ?thesis by simp
        qed
      qed
    qed
  qed
qed

lemma reachable_weakly_ordered: "reachable t \<Longrightarrow> weakly_ordered (priv_root t)"
proof (induction rule: reachable.induct)
  case reachable_init
  then show ?case by (simp add: BinarySearchTree_init_def)
next
  case (reachable_insert t k val)
  note wo = reachable_insert.IH
  show ?case
  proof (cases k)
    case (PyInt i)
    show ?thesis
    proof (cases "priv_root t")
      case None
      then show ?thesis using PyInt by (simp add: insert_bst_def)
    next
      case (Some n)
      obtain e n' sz' where ins: "priv_insert_recursive n (priv_size t) i val = (e, n', sz')"
        by (cases "priv_insert_recursive n (priv_size t) i val")
      have "weakly_ordered (Some n')"
        using insert_weakly_ordered [OF ins] wo Some by simp
      then show ?thesis using PyInt Some ins by (simp add: insert_bst_def)
    qed
  qed (simp_all add: insert_bst_def wo)
next
  case (reachable_remove t k)
  note wo = reachable_remove.IH
  show ?case
  proof (cases k)
    case (PyInt i)
    obtain r' b where rr: "remove_recursive i (priv_root t) = (r', b)"
      by (cases "remove_recursive i (priv_root t)")
    have "weakly_ordered r'"
      using remove_weakly_ordered [OF rr wo] by simp
    then show ?thesis using PyInt rr by (simp add: remove_def)
  qed (simp_all add: remove_def wo)
qed

lemma not_int_cases: "\<not> isinstance_int k \<Longrightarrow> (\<exists>s. k = PyStr s) \<or> k = PyNone"
  by (cases k) simp_all

lemma insert_bst_raises_unchanged:
  "fst (insert_bst t k val) \<noteq> None \<Longrightarrow> snd (insert_bst t k val) = t"
proof (cases k)
  case (PyInt i)
  assume a: "fst (insert_bst t k val) \<noteq> None"
  show ?thesis
  proof (cases "priv_root t")
    case None
    then show ?thesis using a PyInt by (simp add: insert_bst_def)
  next
    case (Some n)
    obtain e n' sz' where ins: "priv_insert_recursive n (priv_size t) i val = (e, n', sz')"
      by (cases "priv_insert_recursive n (priv_size t) i val")
    from a PyInt Some ins obtain err where "e = Some err"
      by (cases e) (simp_all add: insert_bst_def)
    with insert_raises [of n "priv_size t" i val err n' sz'] ins
    have "n' = n" "sz' = priv_size t" by simp_all
    then show ?thesis using PyInt Some ins by (simp add: insert_bst_def)
  qed
qed (simp_all add: insert_bst_def)

lemma remove_raises_unchanged:
  "fst (remove t k) \<noteq> None \<Longrightarrow> snd (remove t k) = t"
proof (cases k)
  case (PyInt i)
  assume a: "fst (remove t k) \<noteq> None"
  obtain r' b where rr: "remove_recursive i (priv_root t) = (r', b)"
    by (cases "remove_recursive i (priv_root t)")
  from a PyInt rr have "\<not> b"
    by (cases b) (simp_all add: remove_def)
  then have "r' = priv_root t"
    using remove_not_found_unchanged [of i "priv_root t" r'] rr by simp
  then show ?thesis using PyInt rr \<open>\<not> b\<close> by (simp add: remove_def)
qed (simp_all add: remove_def)

lemma insert_bst_present:
  assumes "weakly_ordered (priv_root t)" and "i \<in> set (keys_of (priv_root t))"
  shows "insert_bst t (PyInt i) val = (Some KeyError, t)"
proof (cases "priv_root t")
  case None
  then show ?thesis using assms(2) by simp
next
  case (Some n)
  have "priv_find_recursive (Some n) i \<noteq> None"
    using find_present [OF assms] Some by simp
  from insert_found [OF this, of "priv_size t" val] Some show ?thesis
    by (simp add: insert_bst_def)
qed

lemma find_bst_absent:
  "i \<notin> set (keys_of (priv_root t)) \<Longrightarrow> find_bst t (PyInt i) = (Inl KeyError, t)"
  using find_absent [of i "priv_root t"] by (simp add: find_bst_def)

lemma remove_absent:
  assumes "i \<notin> set (keys_of (priv_root t))"
  shows "remove t (PyInt i) = (Some KeyError, t)"
proof -
  obtain r' b where rr: "remove_recursive i (priv_root t) = (r', b)"
    by (cases "remove_recursive i (priv_root t)")
  have "\<not> b"
    using remove_flag [OF rr] find_absent [OF assms] by simp
  moreover from this have "r' = priv_root t"
    using remove_not_found_unchanged [of i "priv_root t" r'] rr by simp
  ultimately show ?thesis using rr by (simp add: remove_def)
qed

lemma find_bst_unchanged: "snd (find_bst t k) = t"
  by (cases k) (simp_all add: find_bst_def split: option.splits)

text \<open>
  C6: an operation that raises leaves the tree (root, size and counter) exactly as it
  was. Whenever \<open>insert\<close> or \<open>remove\<close> raises, and after every \<open>find\<close>, the tree is
  the one before the call. A key that is not an integer makes \<open>insert\<close>, \<open>find\<close> and
  \<open>remove\<close> raise \<open>ValueError\<close>. On a tree built from the empty tree by \<open>insert\<close> and
  \<open>remove\<close>, and on any weakly ordered tree, inserting an integer key that some node
  holds raises \<open>KeyError\<close>. On any
  tree, \<open>find\<close> and \<open>remove\<close> of an integer key that no node holds raise \<open>KeyError\<close>.
  (The spec's InvalidKey is the code's \<open>ValueError\<close>; its DuplicateKey and KeyNotFound
  are both the code's \<open>KeyError\<close>.)
\<close>

theorem failing_operations_leave_tree_unchanged:
  "(fst (insert_bst t k val) \<noteq> None \<longrightarrow> snd (insert_bst t k val) = t) \<and>
   (fst (remove t k) \<noteq> None \<longrightarrow> snd (remove t k) = t) \<and>
   snd (find_bst t k) = t \<and>
   (\<not> isinstance_int k \<longrightarrow>
      insert_bst t k val = (Some ValueError, t) \<and> find_bst t k = (Inl ValueError, t) \<and>
      remove t k = (Some ValueError, t)) \<and>
   ((reachable t \<or> weakly_ordered (priv_root t)) \<and> i \<in> set (keys_of (priv_root t)) \<longrightarrow>
      insert_bst t (PyInt i) val = (Some KeyError, t)) \<and>
   (i \<notin> set (keys_of (priv_root t)) \<longrightarrow>
      find_bst t (PyInt i) = (Inl KeyError, t) \<and> remove t (PyInt i) = (Some KeyError, t))"
proof -
  have not_int: "insert_bst t k val = (Some ValueError, t) \<and>
      find_bst t k = (Inl ValueError, t) \<and> remove t k = (Some ValueError, t)"
    if "\<not> isinstance_int k"
    using not_int_cases [OF that]
    by (auto simp: insert_bst_def find_bst_def remove_def)
  have present: "insert_bst t (PyInt i) val = (Some KeyError, t)"
    if "reachable t \<or> weakly_ordered (priv_root t)" "i \<in> set (keys_of (priv_root t))"
  proof -
    have "weakly_ordered (priv_root t)"
      using that(1) reachable_weakly_ordered by blast
    then show ?thesis using that(2) by (rule insert_bst_present)
  qed
  show ?thesis
    using insert_bst_raises_unchanged [of t k val] remove_raises_unchanged [of t k]
      find_bst_unchanged [of t k] not_int present find_bst_absent [of i t]
      remove_absent [of i t]
    by blast
qed

theorem failing_operations_leave_tree_unchanged_witness:
  "\<not> isinstance_int (PyStr ''5'') \<and>
   insert_bst (snd (insert_all (BinarySearchTree_init None)
       [(PyInt 2, ''b''), (PyInt 1, ''a''), (PyInt 3, ''c'')])) (PyStr ''5'') ''v'' =
     (Some ValueError, snd (insert_all (BinarySearchTree_init None)
       [(PyInt 2, ''b''), (PyInt 1, ''a''), (PyInt 3, ''c'')])) \<and>
   find_bst (snd (insert_all (BinarySearchTree_init None)
       [(PyInt 2, ''b''), (PyInt 1, ''a''), (PyInt 3, ''c'')])) (PyStr ''5'') =
     (Inl ValueError, snd (insert_all (BinarySearchTree_init None)
       [(PyInt 2, ''b''), (PyInt 1, ''a''), (PyInt 3, ''c'')])) \<and>
   remove (snd (insert_all (BinarySearchTree_init None)
       [(PyInt 2, ''b''), (PyInt 1, ''a''), (PyInt 3, ''c'')])) (PyStr ''5'') =
     (Some ValueError, snd (insert_all (BinarySearchTree_init None)
       [(PyInt 2, ''b''), (PyInt 1, ''a''), (PyInt 3, ''c'')])) \<and>
   reachable (snd (insert_all (BinarySearchTree_init None)
       [(PyInt 2, ''b''), (PyInt 1, ''a''), (PyInt 3, ''c'')])) \<and>
   3 \<in> set (keys_of (priv_root (snd (insert_all (BinarySearchTree_init None)
       [(PyInt 2, ''b''), (PyInt 1, ''a''), (PyInt 3, ''c'')])))) \<and>
   insert_bst (snd (insert_all (BinarySearchTree_init None)
       [(PyInt 2, ''b''), (PyInt 1, ''a''), (PyInt 3, ''c'')])) (PyInt 3) ''v'' =
     (Some KeyError, snd (insert_all (BinarySearchTree_init None)
       [(PyInt 2, ''b''), (PyInt 1, ''a''), (PyInt 3, ''c'')])) \<and>
   7 \<notin> set (keys_of (priv_root (snd (insert_all (BinarySearchTree_init None)
       [(PyInt 2, ''b''), (PyInt 1, ''a''), (PyInt 3, ''c'')])))) \<and>
   find_bst (snd (insert_all (BinarySearchTree_init None)
       [(PyInt 2, ''b''), (PyInt 1, ''a''), (PyInt 3, ''c'')])) (PyInt 7) =
     (Inl KeyError, snd (insert_all (BinarySearchTree_init None)
       [(PyInt 2, ''b''), (PyInt 1, ''a''), (PyInt 3, ''c'')])) \<and>
   remove (snd (insert_all (BinarySearchTree_init None)
       [(PyInt 2, ''b''), (PyInt 1, ''a''), (PyInt 3, ''c'')])) (PyInt 7) =
     (Some KeyError, snd (insert_all (BinarySearchTree_init None)
       [(PyInt 2, ''b''), (PyInt 1, ''a''), (PyInt 3, ''c'')]))"
proof -
  let ?T = "snd (insert_all (BinarySearchTree_init None)
       [(PyInt 2, ''b''), (PyInt 1, ''a''), (PyInt 3, ''c'')])"
  have r: "reachable ?T"
    by (rule reachable_insert_all) (rule reachable_init)
  have n: "\<not> isinstance_int (PyStr ''5'')" by simp
  have p: "3 \<in> set (keys_of (priv_root ?T))"
    by (simp add: BinarySearchTree_init_def insert_bst_def)
  have a: "7 \<notin> set (keys_of (priv_root ?T))"
    by (simp add: BinarySearchTree_init_def insert_bst_def)
  from failing_operations_leave_tree_unchanged [of ?T "PyStr ''5''" "''v''" 3]
    failing_operations_leave_tree_unchanged [of ?T "PyStr ''5''" "''v''" 7] r n p a
  show ?thesis by blast
qed

section \<open>Subscript\<close>

lemma getitem_unfold:
  "getitem t k =
     (case fst (find_bst t k) of Inl e \<Rightarrow> (Inl e, t) | Inr n \<Rightarrow> (Inr (node_value n), t))"
  using find_bst_unchanged [of t k]
  by (cases "find_bst t k") (auto simp: getitem_def split: sum.splits)

text \<open>
  C10: \<open>tree[k]\<close> returns the value of the node that \<open>find(k)\<close> returns and raises what
  \<open>find(k)\<close> raises, for every tree and key, and leaves the tree as it was. So it raises
  \<open>ValueError\<close> for a key that is not an integer and \<open>KeyError\<close> for an integer key that
  no node holds; and for an integer key that a node holds, in a tree that is built from
  the empty tree by \<open>insert\<close> and \<open>remove\<close> or is weakly ordered, \<open>find\<close> returns a node
  of the tree with that key and the subscript returns that node's value.
\<close>

theorem getitem_follows_find:
  "(\<forall>n t'. find_bst t k = (Inr n, t') \<longrightarrow> getitem t k = (Inr (node_value n), t)) \<and>
   (\<forall>e t'. find_bst t k = (Inl e, t') \<longrightarrow> getitem t k = (Inl e, t)) \<and>
   snd (getitem t k) = t \<and>
   (\<not> isinstance_int k \<longrightarrow> getitem t k = (Inl ValueError, t)) \<and>
   (i \<notin> set (keys_of (priv_root t)) \<longrightarrow> getitem t (PyInt i) = (Inl KeyError, t)) \<and>
   ((reachable t \<or> weakly_ordered (priv_root t)) \<and> i \<in> set (keys_of (priv_root t)) \<longrightarrow>
      (\<exists>n. find_bst t (PyInt i) = (Inr n, t) \<and> key n = i \<and> n \<in> set (preorder t None) \<and>
           getitem t (PyInt i) = (Inr (node_value n), t)))"
proof -
  have ok: "getitem t k = (Inr (node_value n), t)" if "find_bst t k = (Inr n, t')" for n t'
    using that by (simp add: getitem_unfold)
  have err: "getitem t k = (Inl e, t)" if "find_bst t k = (Inl e, t')" for e t'
    using that by (simp add: getitem_unfold)
  have same: "snd (getitem t k) = t"
    by (simp add: getitem_unfold split: sum.splits)
  have not_int: "getitem t k = (Inl ValueError, t)" if "\<not> isinstance_int k"
    using not_int_cases [OF that] by (auto simp: getitem_unfold find_bst_def)
  have absent: "getitem t (PyInt i) = (Inl KeyError, t)" if "i \<notin> set (keys_of (priv_root t))"
    using find_bst_absent [OF that] by (simp add: getitem_unfold)
  have present: "\<exists>n. find_bst t (PyInt i) = (Inr n, t) \<and> key n = i \<and>
      n \<in> set (preorder t None) \<and> getitem t (PyInt i) = (Inr (node_value n), t)"
    if "reachable t \<or> weakly_ordered (priv_root t)" "i \<in> set (keys_of (priv_root t))"
  proof -
    have "weakly_ordered (priv_root t)"
      using that(1) reachable_weakly_ordered by blast
    from find_present [OF this that(2)] obtain n where
      f: "priv_find_recursive (priv_root t) i = Some n" by blast
    then have "find_bst t (PyInt i) = (Inr n, t)"
      by (simp add: find_bst_def)
    moreover from this have "getitem t (PyInt i) = (Inr (node_value n), t)"
      by (simp add: getitem_unfold)
    ultimately show ?thesis
      using find_in_preorder [OF f] by (simp add: preorder_default)
  qed
  from ok err same not_int absent present show ?thesis by blast
qed

theorem getitem_follows_find_witness:
  "find_bst (snd (insert_all (BinarySearchTree_init None)
       [(PyInt 2, ''b''), (PyInt 1, ''a''), (PyInt 3, ''c'')])) (PyInt 3) =
     (Inr (TreeNode 3 ''c'' None None None), snd (insert_all (BinarySearchTree_init None)
       [(PyInt 2, ''b''), (PyInt 1, ''a''), (PyInt 3, ''c'')])) \<and>
   getitem (snd (insert_all (BinarySearchTree_init None)
       [(PyInt 2, ''b''), (PyInt 1, ''a''), (PyInt 3, ''c'')])) (PyInt 3) =
     (Inr ''c'', snd (insert_all (BinarySearchTree_init None)
       [(PyInt 2, ''b''), (PyInt 1, ''a''), (PyInt 3, ''c'')])) \<and>
   find_bst (snd (insert_all (BinarySearchTree_init None)
       [(PyInt 2, ''b''), (PyInt 1, ''a''), (PyInt 3, ''c'')])) PyNone =
     (Inl ValueError, snd (insert_all (BinarySearchTree_init None)
       [(PyInt 2, ''b''), (PyInt 1, ''a''), (PyInt 3, ''c'')])) \<and>
   \<not> isinstance_int PyNone \<and>
   getitem (snd (insert_all (BinarySearchTree_init None)
       [(PyInt 2, ''b''), (PyInt 1, ''a''), (PyInt 3, ''c'')])) PyNone =
     (Inl ValueError, snd (insert_all (BinarySearchTree_init None)
       [(PyInt 2, ''b''), (PyInt 1, ''a''), (PyInt 3, ''c'')])) \<and>
   7 \<notin> set (keys_of (priv_root (snd (insert_all (BinarySearchTree_init None)
       [(PyInt 2, ''b''), (PyInt 1, ''a''), (PyInt 3, ''c'')])))) \<and>
   getitem (snd (insert_all (BinarySearchTree_init None)
       [(PyInt 2, ''b''), (PyInt 1, ''a''), (PyInt 3, ''c'')])) (PyInt 7) =
     (Inl KeyError, snd (insert_all (BinarySearchTree_init None)
       [(PyInt 2, ''b''), (PyInt 1, ''a''), (PyInt 3, ''c'')])) \<and>
   reachable (snd (insert_all (BinarySearchTree_init None)
       [(PyInt 2, ''b''), (PyInt 1, ''a''), (PyInt 3, ''c'')])) \<and>
   1 \<in> set (keys_of (priv_root (snd (insert_all (BinarySearchTree_init None)
       [(PyInt 2, ''b''), (PyInt 1, ''a''), (PyInt 3, ''c'')])))) \<and>
   (\<exists>n. find_bst (snd (insert_all (BinarySearchTree_init None)
       [(PyInt 2, ''b''), (PyInt 1, ''a''), (PyInt 3, ''c'')])) (PyInt 1) =
       (Inr n, snd (insert_all (BinarySearchTree_init None)
       [(PyInt 2, ''b''), (PyInt 1, ''a''), (PyInt 3, ''c'')])) \<and> key n = 1 \<and>
       getitem (snd (insert_all (BinarySearchTree_init None)
       [(PyInt 2, ''b''), (PyInt 1, ''a''), (PyInt 3, ''c'')])) (PyInt 1) =
       (Inr (node_value n), snd (insert_all (BinarySearchTree_init None)
       [(PyInt 2, ''b''), (PyInt 1, ''a''), (PyInt 3, ''c'')])))"
proof -
  let ?T = "snd (insert_all (BinarySearchTree_init None)
       [(PyInt 2, ''b''), (PyInt 1, ''a''), (PyInt 3, ''c'')])"
  have r: "reachable ?T"
    by (rule reachable_insert_all) (rule reachable_init)
  have f3: "find_bst ?T (PyInt 3) = (Inr (TreeNode 3 ''c'' None None None), ?T)"
    by (simp add: BinarySearchTree_init_def insert_bst_def find_bst_def)
  have fn: "find_bst ?T PyNone = (Inl ValueError, ?T)"
    by (simp add: find_bst_def)
  have n: "\<not> isinstance_int PyNone" by simp
  have a: "7 \<notin> set (keys_of (priv_root ?T))"
    by (simp add: BinarySearchTree_init_def insert_bst_def)
  have p: "1 \<in> set (keys_of (priv_root ?T))"
    by (simp add: BinarySearchTree_init_def insert_bst_def)
  have g3: "getitem ?T (PyInt 3) = (Inr ''c'', ?T)"
    using getitem_follows_find [of ?T "PyInt 3" 7] f3 by simp
  have gn: "getitem ?T PyNone = (Inl ValueError, ?T)"
    using getitem_follows_find [of ?T PyNone 7] n by blast
  have g7: "getitem ?T (PyInt 7) = (Inl KeyError, ?T)"
    using getitem_follows_find [of ?T PyNone 7] a by blast
  have g1: "\<exists>n. find_bst ?T (PyInt 1) = (Inr n, ?T) \<and> key n = 1 \<and>
       getitem ?T (PyInt 1) = (Inr (node_value n), ?T)"
    using getitem_follows_find [of ?T PyNone 1] r p by blast
  from f3 g3 fn n gn a g7 r p g1 show ?thesis by blast
qed

end
